theory Spec2Isabelle
  imports Complex_Main "HOL-Library.Sublist"
begin

section \<open>Text primitives used by the fake-news heuristic\<close>

text \<open>
  A Python \<open>str\<close> is a sequence of Unicode code points, so a text is a list of code points
  (each the integer that \<open>ord\<close> gives; \<open>len\<close> is \<open>length\<close>). The string constants of \<open>app.py\<close> are written out as code points;
  the Russian capital letters are 1040..1071 (with 1025 for the capital IO), the small ones
  1072..1103 (with 1105 for the small io).

  The score is a Python \<open>float\<close>. Every value that the scoring function adds is modelled
  as the real number that exact arithmetic gives.

  Case mapping and the regular-expression classes \<open>\s\<close> and \<open>\w\<close> follow Python on Basic Latin
  and on the Cyrillic letters 1024..1119; other code points are taken to be caseless, and
  outside the listed white-space characters and the underscore they are taken to be
  neither white space nor word characters.
\<close>

type_synonym codepoint = int
type_synonym ustr = "codepoint list"

definition is_space :: "codepoint \<Rightarrow> bool" where
  \<comment> \<open>\<open>str.isspace\<close> on one character; also the class \<open>\s\<close> of \<open>re\<close>\<close>
  "is_space c \<longleftrightarrow>
     (9 \<le> c \<and> c \<le> 13) \<or> (28 \<le> c \<and> c \<le> 32) \<or> c = 133 \<or> c = 160 \<or> c = 5760 \<or>
     (8192 \<le> c \<and> c \<le> 8202) \<or> c = 8232 \<or> c = 8233 \<or> c = 8239 \<or> c = 8287 \<or> c = 12288"

definition strip :: "ustr \<Rightarrow> ustr" where
  \<comment> \<open>\<open>s.strip()\<close>\<close>
  "strip s = rev (dropWhile is_space (rev (dropWhile is_space s)))"

definition lower_cp :: "codepoint \<Rightarrow> codepoint" where
  "lower_cp c =
     (if (65 \<le> c \<and> c \<le> 90) \<or> (1040 \<le> c \<and> c \<le> 1071) then c + 32
      else if 1024 \<le> c \<and> c \<le> 1039 then c + 80
      else c)"

definition lower :: "ustr \<Rightarrow> ustr" where
  \<comment> \<open>\<open>s.lower()\<close>\<close>
  "lower s = map lower_cp s"

fun str_in :: "ustr \<Rightarrow> ustr \<Rightarrow> bool" where
  \<comment> \<open>\<open>w in s\<close> on strings: \<open>w\<close> occurs in \<open>s\<close> as a contiguous piece\<close>
  "str_in w [] = (w = [])"
| "str_in w (c # cs) = (prefix w (c # cs) \<or> str_in w cs)"

definition is_word_cp :: "codepoint \<Rightarrow> bool" where
  \<comment> \<open>the class \<open>\w\<close> of \<open>re\<close>, which decides \<open>\b\<close>\<close>
  "is_word_cp c \<longleftrightarrow>
     (48 \<le> c \<and> c \<le> 57) \<or> (65 \<le> c \<and> c \<le> 90) \<or> (97 \<le> c \<and> c \<le> 122) \<or> c = 95 \<or>
     (1024 \<le> c \<and> c \<le> 1119)"

subsection \<open>The regular expressions of the source\<close>

text \<open>
  The patterns of \<open>app.py\<close> are sequences of four kinds of item: a literal character, an
  optional literal character (\<open>s?\<close>), a run of white space (\<open>\s+\<close>) and a word boundary
  (\<open>\b\<close>). \<open>match_here\<close> tells whether a pattern matches at the start of the rest of the
  text, given the character before it; \<open>re_search\<close> tries every position, as \<open>re.search\<close>
  does. The flag says whether \<open>re.IGNORECASE\<close> is set.
\<close>

datatype atom = Lit codepoint | Opt codepoint | Spaces1 | WordB

definition lit_eq :: "bool \<Rightarrow> codepoint \<Rightarrow> codepoint \<Rightarrow> bool" where
  "lit_eq ic p x = (if ic then lower_cp x = lower_cp p else x = p)"

definition word_before :: "codepoint option \<Rightarrow> bool" where
  "word_before prev = (case prev of None \<Rightarrow> False | Some c \<Rightarrow> is_word_cp c)"

definition word_after :: "ustr \<Rightarrow> bool" where
  "word_after s = (case s of [] \<Rightarrow> False | c # _ \<Rightarrow> is_word_cp c)"

fun match_here :: "bool \<Rightarrow> atom list \<Rightarrow> codepoint option \<Rightarrow> ustr \<Rightarrow> bool" where
  "match_here ic [] prev s = True"
| "match_here ic (Lit p # as) prev [] = False"
| "match_here ic (Lit p # as) prev (x # xs) = (lit_eq ic p x \<and> match_here ic as (Some x) xs)"
| "match_here ic (Opt p # as) prev [] = match_here ic as prev []"
| "match_here ic (Opt p # as) prev (x # xs) =
     ((lit_eq ic p x \<and> match_here ic as (Some x) xs) \<or> match_here ic as prev (x # xs))"
| "match_here ic (Spaces1 # as) prev [] = False"
| "match_here ic (Spaces1 # as) prev (x # xs) =
     (is_space x \<and> (match_here ic (Spaces1 # as) (Some x) xs \<or> match_here ic as (Some x) xs))"
| "match_here ic (WordB # as) prev s =
     (word_before prev \<noteq> word_after s \<and> match_here ic as prev s)"

fun search_from :: "bool \<Rightarrow> atom list \<Rightarrow> codepoint option \<Rightarrow> ustr \<Rightarrow> bool" where
  "search_from ic pat prev [] = match_here ic pat prev []"
| "search_from ic pat prev (x # xs) =
     (match_here ic pat prev (x # xs) \<or> search_from ic pat (Some x) xs)"

definition re_search :: "bool \<Rightarrow> atom list \<Rightarrow> ustr \<Rightarrow> bool" where
  "re_search ic pat s = search_from ic pat None s"

definition lits :: "ustr \<Rightarrow> atom list" where
  "lits w = map Lit w"

definition SENSATIONAL :: "ustr list" where
  \<comment> \<open>SHOK, SROCHNO, NEVEROYATNO, SENSATSIYA, RAZOBLACHENO, SKANDAL, EXCLUSIVE, BREAKING\<close>
  "SENSATIONAL =
    [ [1064, 1054, 1050],
     [1057, 1056, 1054, 1063, 1053, 1054],
     [1053, 1045, 1042, 1045, 1056, 1054, 1071, 1058, 1053, 1054],
     [1057, 1045, 1053, 1057, 1040, 1062, 1048, 1071],
     [1056, 1040, 1047, 1054, 1041, 1051, 1040, 1063, 1045, 1053, 1054],
     [1057, 1050, 1040, 1053, 1044, 1040, 1051],
     [69, 88, 67, 76, 85, 83, 73, 86, 69],
     [66, 82, 69, 65, 75, 73, 78, 71] ]"

definition TELL_FLAT_EARTH :: "atom list" where
  \<comment> \<open>\<open>ploskaya\s+zemlya\<close>\<close>
  "TELL_FLAT_EARTH =
     lits [1087, 1083, 1086, 1089, 1082, 1072, 1103] @ [Spaces1] @
     lits [1079, 1077, 1084, 1083, 1103]"

definition TELL_REPTILOID :: "atom list" where
  \<comment> \<open>\<open>reptiloid\<close>\<close>
  "TELL_REPTILOID = lits [1088, 1077, 1087, 1090, 1080, 1083, 1086, 1080, 1076]"

definition TELL_UFO :: "atom list" where
  \<comment> \<open>\<open>\bNLO\b\<close>\<close>
  "TELL_UFO = [WordB] @ lits [1053, 1051, 1054] @ [WordB]"

definition TELL_CONSPIRACY :: "atom list" where
  \<comment> \<open>\<open>zagovor\<close>\<close>
  "TELL_CONSPIRACY = lits [1079, 1072, 1075, 1086, 1074, 1086, 1088]"

definition SPACE_FAKE_TELLS :: "atom list list" where
  "SPACE_FAKE_TELLS = [TELL_FLAT_EARTH, TELL_REPTILOID, TELL_UFO, TELL_CONSPIRACY]"

definition URL_REGEX :: "atom list" where
  \<comment> \<open>\<open>https?://\<close>, compiled without flags\<close>
  "URL_REGEX = lits [104, 116, 116, 112] @ [Opt 115] @ lits [58, 47, 47]"

definition CLICKBAIT :: "atom list list" where
  \<comment> \<open>\<open>\b(sensatsiya|shok|eksklyuziv)\b\<close>: one pattern for each alternative of the group\<close>
  "CLICKBAIT =
    [ [WordB] @ lits [1089, 1077, 1085, 1089, 1072, 1094, 1080, 1103] @ [WordB],
     [WordB] @ lits [1096, 1086, 1082] @ [WordB],
     [WordB] @ lits [1101, 1082, 1089, 1082, 1083, 1102, 1079, 1080, 1074] @ [WordB] ]"

definition is_token_cp :: "codepoint \<Rightarrow> bool" where
  \<comment> \<open>the class \<open>[A-Za-z\<dots>0-9]\<close> with the Russian capital and small letters and both IO\<close>
  "is_token_cp c \<longleftrightarrow>
     (65 \<le> c \<and> c \<le> 90) \<or> (97 \<le> c \<and> c \<le> 122) \<or> (1040 \<le> c \<and> c \<le> 1071) \<or>
     (1072 \<le> c \<and> c \<le> 1103) \<or> c = 1025 \<or> c = 1105 \<or> (48 \<le> c \<and> c \<le> 57)"

definition flush :: "ustr \<Rightarrow> ustr list" where
  "flush cur = (if cur = [] then [] else [rev cur])"

fun words_from :: "ustr \<Rightarrow> ustr \<Rightarrow> ustr list" where
  \<comment> \<open>the first argument holds the current run of class characters, last one first\<close>
  "words_from cur [] = flush cur"
| "words_from cur (x # xs) =
     (if is_token_cp x then words_from (x # cur) xs else flush cur @ words_from [] xs)"

definition findall_words :: "ustr \<Rightarrow> ustr list" where
  \<comment> \<open>\<open>re.findall\<close> of the class above with \<open>+\<close>: the maximal runs, left to right\<close>
  "findall_words s = words_from [] s"

definition is_upper_cp :: "codepoint \<Rightarrow> bool" where
  "is_upper_cp c \<longleftrightarrow> (65 \<le> c \<and> c \<le> 90) \<or> (1040 \<le> c \<and> c \<le> 1071) \<or> c = 1025"

definition UPPERCASE_WORD_match :: "ustr \<Rightarrow> bool" where
  \<comment> \<open>four or more capital letters from the start up to the end of the word
      (\<open>$\<close> also matches before a final line feed)\<close>
  "UPPERCASE_WORD_match w =
     (let u = (if w \<noteq> [] \<and> last w = 10 then butlast w else w)
      in 4 \<le> length u \<and> list_all is_upper_cp u)"

section \<open>The scoring function\<close>

definition sensational_points :: "ustr \<Rightarrow> real" where
  "sensational_points combined =
     sum_list (map (\<lambda>w. if str_in (lower w) (lower combined) then 10 else 0) SENSATIONAL)"

definition tells_points :: "ustr \<Rightarrow> real" where
  "tells_points combined =
     sum_list (map (\<lambda>pat. if re_search True pat combined then 18 else 0) SPACE_FAKE_TELLS)"

definition url_points :: "ustr \<Rightarrow> real" where
  "url_points combined = (if \<not> re_search False URL_REGEX combined then 12 else 0)"

definition punct_points :: "ustr \<Rightarrow> real" where
  "punct_points combined =
     (let excls = count_list combined 33; ques = count_list combined 63
      in min (real excls * 2) 20 + min (real ques * 1.5) 15)"

definition caps_points :: "ustr list \<Rightarrow> real" where
  "caps_points words =
     (if words \<noteq> [] then
        (let caps_words = length (filter UPPERCASE_WORD_match words);
             ratio = real caps_words / real (max 1 (length words))
         in min (ratio * 120) 25)
      else 0)"

definition length_points :: "ustr \<Rightarrow> ustr list \<Rightarrow> real" where
  "length_points combined words =
     (let avg_len = real (sum_list (map length words)) / real (max 1 (length words))
      in (if length combined < 280 then 6 else 0) + (if avg_len < 4 then 5 else 0))"

definition clickbait_points :: "ustr \<Rightarrow> real" where
  "clickbait_points combined =
     (if list_ex (\<lambda>pat. re_search True pat combined) CLICKBAIT then 7 else 0)"

definition combined_text :: "ustr \<Rightarrow> ustr \<Rightarrow> ustr" where
  "combined_text title text = strip (title @ [10] @ text)"

definition raw_score :: "ustr \<Rightarrow> real" where
  \<comment> \<open>the value of \<open>score\<close> before the final clamp\<close>
  "raw_score combined =
     (let words = findall_words combined
      in sensational_points combined + tells_points combined + url_points combined +
         punct_points combined + caps_points words + length_points combined words +
         clickbait_points combined)"

definition improved_fake_score :: "ustr \<Rightarrow> ustr \<Rightarrow> real" where
  "improved_fake_score text title =
     (if text = [] then 0
      else max 0 (min 100 (raw_score (combined_text title text))))"

section \<open>The news table, the upload folder and the two places that apply the threshold\<close>

text \<open>
  A row of the table \<open>news\<close>. The columns \<open>author\<close>, \<open>image\<close> and \<open>audio\<close> may be NULL.
  The state of the application is the table, the counter behind \<open>AUTOINCREMENT\<close> and the
  files on disk. A file on disk is either one that \<open>os.remove\<close> deletes or one on which
  \<open>os.remove\<close> raises (no permission, a directory).
\<close>

record news_item =
  row_id :: nat
  row_title :: ustr
  row_author :: "ustr option"
  row_content :: ustr
  row_image :: "ustr option"
  row_audio :: "ustr option"
  row_created_at :: ustr
  fake_score :: real

datatype py_exception = FileNotFoundError | PermissionError

datatype file_entry = Removable | Unremovable

type_synonym filesystem = "ustr \<rightharpoonup> file_entry"

record app_state =
  news :: "news_item list"
  news_seq :: nat
  files :: filesystem

definition FAKE_THRESHOLD :: real where
  "FAKE_THRESHOLD = 70"

definition UPLOAD_FOLDER :: ustr where
  \<comment> \<open>\<open>static/uploads\<close> under the directory of \<open>app.py\<close>\<close>
  "UPLOAD_FOLDER = [115, 116, 97, 116, 105, 99, 47, 117, 112, 108, 111, 97, 100, 115]"

definition os_path_join :: "ustr \<Rightarrow> ustr \<Rightarrow> ustr" where
  "os_path_join a b =
     (if b \<noteq> [] \<and> hd b = 47 then b
      else if a = [] \<or> last a = 47 then a @ b
      else a @ [47] @ b)"

definition os_path_exists :: "filesystem \<Rightarrow> ustr \<Rightarrow> bool" where
  "os_path_exists fs fp \<longleftrightarrow> fs fp \<noteq> None"

definition os_remove :: "filesystem \<Rightarrow> ustr \<Rightarrow> py_exception + filesystem" where
  "os_remove fs fp =
     (case fs fp of
        None \<Rightarrow> Inl FileNotFoundError
      | Some Unremovable \<Rightarrow> Inl PermissionError
      | Some Removable \<Rightarrow> Inr (fs(fp := None)))"

definition and_then :: "'e + 'a \<Rightarrow> ('a \<Rightarrow> 'e + 'b) \<Rightarrow> 'e + 'b" where
  \<comment> \<open>one statement after another: an exception of the first skips the second\<close>
  "and_then m f = (case m of Inl e \<Rightarrow> Inl e | Inr x \<Rightarrow> f x)"

definition try_except_pass :: "filesystem \<Rightarrow> py_exception + filesystem \<Rightarrow> py_exception + filesystem" where
  \<comment> \<open>\<open>try: body\<close> \<open>except Exception: pass\<close>, run on the file system \<open>fs\<close>\<close>
  "try_except_pass fs body = (case body of Inl e \<Rightarrow> Inr fs | Inr fs' \<Rightarrow> Inr fs')"

definition truthy :: "ustr option \<Rightarrow> bool" where
  \<comment> \<open>\<open>if r['image']:\<close> holds for a column that is neither NULL nor the empty string\<close>
  "truthy v = (case v of None \<Rightarrow> False | Some s \<Rightarrow> s \<noteq> [])"

definition remove_if_exists :: "filesystem \<Rightarrow> ustr \<Rightarrow> py_exception + filesystem" where
  \<comment> \<open>\<open>if os.path.exists(fp): os.remove(fp)\<close>\<close>
  "remove_if_exists fs fp = (if os_path_exists fs fp then os_remove fs fp else Inr fs)"

definition delete_slot :: "ustr option \<Rightarrow> filesystem \<Rightarrow> py_exception + filesystem" where
  \<comment> \<open>the block of \<open>cleanup_fakes\<close> for one of the two columns\<close>
  "delete_slot v fs =
     (if truthy v
      then try_except_pass fs (remove_if_exists fs (os_path_join UPLOAD_FOLDER (the v)))
      else Inr fs)"

definition delete_files :: "news_item \<Rightarrow> filesystem \<Rightarrow> py_exception + filesystem" where
  \<comment> \<open>the body of the loop of \<open>cleanup_fakes\<close>: the image, then the audio\<close>
  "delete_files r fs = and_then (delete_slot (row_image r) fs) (delete_slot (row_audio r))"

fun delete_all_files :: "news_item list \<Rightarrow> filesystem \<Rightarrow> py_exception + filesystem" where
  \<comment> \<open>\<open>for r in rows\<close>\<close>
  "delete_all_files [] fs = Inr fs"
| "delete_all_files (r # rs) fs = and_then (delete_files r fs) (delete_all_files rs)"

definition over_threshold :: "news_item \<Rightarrow> bool" where
  \<comment> \<open>the condition \<open>WHERE fake_score > ?\<close> with \<open>FAKE_THRESHOLD\<close> for the parameter\<close>
  "over_threshold r \<longleftrightarrow> fake_score r > FAKE_THRESHOLD"

definition select_fakes :: "app_state \<Rightarrow> news_item list" where
  "select_fakes st = filter over_threshold (news st)"

definition cleanup_fakes :: "app_state \<Rightarrow> py_exception + app_state" where
  "cleanup_fakes st =
     (let rows = select_fakes st
      in if rows = [] then Inr st
         else and_then (delete_all_files rows (files st))
                (\<lambda>fs. Inr (st\<lparr>files := fs,
                               news := filter (\<lambda>r. \<not> over_threshold r) (news st)\<rparr>)))"

text \<open>
  The part of the handler \<open>add_news\<close> that follows the validation of the form and the saving
  of the uploads (from the computation of the score to the end): \<open>image_name\<close> and
  \<open>audio_name\<close> are the names under which the uploads were saved, if any, and \<open>created_at\<close>
  is the formatted time of the insertion. The outcome is the message flashed to the user.
\<close>

datatype outcome = Rejected real | Published real

definition discard_upload :: "ustr option \<Rightarrow> filesystem \<Rightarrow> py_exception + filesystem" where
  \<comment> \<open>\<open>if image_name:\<close> \<open>try: os.remove(...)\<close> \<open>except Exception: pass\<close>\<close>
  "discard_upload v fs =
     (if truthy v then try_except_pass fs (os_remove fs (os_path_join UPLOAD_FOLDER (the v)))
      else Inr fs)"

definition insert_news :: "news_item \<Rightarrow> app_state \<Rightarrow> app_state" where
  \<comment> \<open>\<open>INSERT INTO news\<close>: the row gets the next identifier\<close>
  "insert_news r st =
     st\<lparr>news := news st @ [r\<lparr>row_id := Suc (news_seq st)\<rparr>], news_seq := Suc (news_seq st)\<rparr>"

definition evaluate_submission ::
  "ustr \<Rightarrow> ustr \<Rightarrow> ustr \<Rightarrow> ustr option \<Rightarrow> ustr option \<Rightarrow> ustr \<Rightarrow> app_state
     \<Rightarrow> py_exception + (outcome \<times> app_state)" where
  "evaluate_submission title author content image_name audio_name created_at st =
     (let score = improved_fake_score content title
      in if score > FAKE_THRESHOLD
         then and_then (discard_upload image_name (files st))
                (\<lambda>fs1. and_then (discard_upload audio_name fs1)
                   (\<lambda>fs2. Inr (Rejected score, st\<lparr>files := fs2\<rparr>)))
         else Inr (Published score,
                   insert_news \<lparr>row_id = 0, row_title = title, row_author = Some author,
                                row_content = content, row_image = image_name,
                                row_audio = audio_name, row_created_at = created_at,
                                fake_score = score\<rparr> st))"

section \<open>Example data\<close>

text \<open>
  A title (\<open>zagovor\<close>) and a family of bodies (\<open>reptiloid\<close> followed by \<open>n\<close> exclamation
  marks), and a state of two rows: one above the threshold, whose image is not on disk and
  whose audio cannot be removed, and one exactly at the threshold.
\<close>

definition demo_title :: ustr where
  "demo_title = [1079, 1072, 1075, 1086, 1074, 1086, 1088]"

definition demo_body :: "nat \<Rightarrow> ustr" where
  "demo_body n = [1088, 1077, 1087, 1090, 1080, 1083, 1086, 1080, 1076] @ replicate n 33"

definition demo_fake :: news_item where
  "demo_fake = \<lparr>row_id = 1, row_title = [65], row_author = None, row_content = [66],
                 row_image = Some [105], row_audio = Some [97], row_created_at = [],
                 fake_score = 85\<rparr>"

definition demo_kept :: news_item where
  "demo_kept = \<lparr>row_id = 2, row_title = [67], row_author = None, row_content = [68],
                 row_image = None, row_audio = None, row_created_at = [],
                 fake_score = 70\<rparr>"

definition demo_state :: app_state where
  "demo_state = \<lparr>news = [demo_fake, demo_kept], news_seq = 2,
                  files = [os_path_join UPLOAD_FOLDER [97] \<mapsto> Unremovable]\<rparr>"

text \<open>
  The title of the scenario ("SROCHNO!!! SHOK: obnaruzhen reptiloid na Marse!!!") and a long
  plain body, \<open>abcd\<close> repeated \<open>n + 1\<close> times with single spaces between.
\<close>

definition scenario_title :: ustr where
  "scenario_title =
    [1057, 1056, 1054, 1063, 1053, 1054, 33, 33, 33, 32, 1064, 1054, 1050, 58, 32,
     1086, 1073, 1085, 1072, 1088, 1091, 1078, 1077, 1085, 32,
     1088, 1077, 1087, 1090, 1080, 1083, 1086, 1080, 1076, 32, 1085, 1072, 32,
     1052, 1072, 1088, 1089, 1077, 33, 33, 33]"

definition filler_body :: "nat \<Rightarrow> ustr" where
  "filler_body n = concat (replicate n [97, 98, 99, 100, 32]) @ [97, 98, 99, 100]"

text \<open>
  A title (\<open>NEWS\<close>) and a body (\<open>a b c reptiloid\<close>) that already matches one red-flag
  pattern, and for each pattern of \<open>SPACE_FAKE_TELLS\<close>, in the same order, a text that
  it matches: the pattern as it is spelled, with one space for \<open>\s+\<close>.
\<close>

definition flag_title :: ustr where
  "flag_title = [78, 69, 87, 83]"

definition flag_text :: ustr where
  "flag_text = [97, 32, 98, 32, 99, 32, 1088, 1077, 1087, 1090, 1080, 1083, 1086, 1080, 1076]"

definition TELL_INSTANCES :: "ustr list" where
  "TELL_INSTANCES =
    [ [1087, 1083, 1086, 1089, 1082, 1072, 1103, 32, 1079, 1077, 1084, 1083, 1103],
      [1088, 1077, 1087, 1090, 1080, 1083, 1086, 1080, 1076],
      [1053, 1051, 1054],
      [1079, 1072, 1075, 1086, 1074, 1086, 1088] ]"

section \<open>Checks on patterns, used in the proofs\<close>

text \<open>
  \<open>consuming\<close> holds for a pattern with an item other than a word boundary. \<open>no_overlap\<close>
  says that no match of the pattern begins inside the text \<open>z\<close> and that no part of the
  pattern that is still to be matched can be matched at the start of \<open>z\<close>; the character
  before matters only through its being a word character or not, so two cases are tried.
  \<open>instances_checked\<close> collects what is needed of the four patterns and their instances.
\<close>

definition consuming :: "atom list \<Rightarrow> bool" where
  "consuming pat = list_ex (\<lambda>a. a \<noteq> WordB) pat"

definition no_overlap :: "atom list \<Rightarrow> ustr \<Rightarrow> bool" where
  "no_overlap pat z \<longleftrightarrow>
     list_all (\<lambda>pat'. consuming pat' \<longrightarrow>
                \<not> match_here True pat' None z \<and> \<not> match_here True pat' (Some 48) z)
              (suffixes pat) \<and>
     list_all (\<lambda>z2. \<not> match_here True pat None z2 \<and> \<not> match_here True pat (Some 48) z2)
              (suffixes z)"

definition instances_checked :: bool where
  "instances_checked =
     list_all (\<lambda>i. list_all (\<lambda>j.
         (if j = i then match_here True (SPACE_FAKE_TELLS ! j) (Some 32) (TELL_INSTANCES ! i)
          else no_overlap (SPACE_FAKE_TELLS ! j) (32 # TELL_INSTANCES ! i)))
       [0, 1, 2, 3]) [0, 1, 2, 3]"

section \<open>Properties of the scoring function\<close>

text \<open>
  C3. For every body and title the score lies in the closed interval from 0 to 100, and the
  empty body with the empty title scores exactly 0.
\<close>

theorem improved_fake_score_range:
  "0 \<le> improved_fake_score text title \<and> improved_fake_score text title \<le> 100 \<and>
   improved_fake_score [] [] = 0"
  by (simp add: improved_fake_score_def)

text \<open>
  C10. With an empty body the score is exactly 0 whatever the title holds: the test on the
  body comes first and the title is not looked at.
\<close>

theorem improved_fake_score_empty_body:
  "improved_fake_score [] title = 0"
  by (simp add: improved_fake_score_def)

section \<open>Properties of the sweep and of the submission handler\<close>

lemma delete_slot_returns: "\<exists>fs'. delete_slot v fs = Inr fs'"
  by (simp add: delete_slot_def try_except_pass_def split: sum.splits)

lemma delete_files_returns: "\<exists>fs'. delete_files r fs = Inr fs'"
proof -
  obtain fs1 where "delete_slot (row_image r) fs = Inr fs1"
    using delete_slot_returns by blast
  moreover obtain fs2 where "delete_slot (row_audio r) fs1 = Inr fs2"
    using delete_slot_returns by blast
  ultimately show ?thesis by (simp add: delete_files_def and_then_def)
qed

lemma delete_all_files_returns: "\<exists>fs'. delete_all_files rs fs = Inr fs'"
proof (induction rs arbitrary: fs)
  case Nil
  show ?case by simp
next
  case (Cons r rs)
  obtain fs1 where "delete_files r fs = Inr fs1"
    using delete_files_returns by blast
  with Cons.IH [of fs1] show ?case by (simp add: and_then_def)
qed

lemma filter_none_over: "filter over_threshold xs = [] \<Longrightarrow> filter (\<lambda>r. \<not> over_threshold r) xs = xs"
  by (induction xs) (auto split: if_splits)

lemma cleanup_fakes_returns:
  "\<exists>fs'. cleanup_fakes st =
     Inr (st\<lparr>files := fs', news := filter (\<lambda>r. \<not> over_threshold r) (news st)\<rparr>)"
proof (cases "select_fakes st = []")
  case True
  then have "filter (\<lambda>r. \<not> over_threshold r) (news st) = news st"
    by (simp add: select_fakes_def filter_none_over)
  with True have "cleanup_fakes st = Inr (st\<lparr>files := files st, news := filter (\<lambda>r. \<not> over_threshold r) (news st)\<rparr>)"
    by (simp add: cleanup_fakes_def)
  then show ?thesis by blast
next
  case False
  obtain fs1 where "delete_all_files (select_fakes st) (files st) = Inr fs1"
    using delete_all_files_returns by blast
  with False have "cleanup_fakes st =
     Inr (st\<lparr>files := fs1, news := filter (\<lambda>r. \<not> over_threshold r) (news st)\<rparr>)"
    by (simp add: cleanup_fakes_def and_then_def)
  then show ?thesis by blast
qed

text \<open>
  C2. After a sweep no row of the table has a score above the threshold: from every state
  \<open>cleanup_fakes\<close> returns, and no row of the state it returns is above \<open>FAKE_THRESHOLD\<close>.
\<close>

theorem cleanup_fakes_leaves_no_fake:
  "\<exists>st'. cleanup_fakes st = Inr st' \<and> (\<forall>r \<in> set (news st'). \<not> fake_score r > FAKE_THRESHOLD)"
proof -
  obtain fs' where "cleanup_fakes st =
     Inr (st\<lparr>files := fs', news := filter (\<lambda>r. \<not> over_threshold r) (news st)\<rparr>)"
    using cleanup_fakes_returns by blast
  then show ?thesis by (auto simp: over_threshold_def)
qed

lemma demo_cleanup: "cleanup_fakes demo_state = Inr (demo_state\<lparr>news := [demo_kept]\<rparr>)"
  by (simp add: cleanup_fakes_def select_fakes_def demo_state_def demo_fake_def demo_kept_def
      over_threshold_def FAKE_THRESHOLD_def and_then_def delete_files_def delete_slot_def
      truthy_def try_except_pass_def remove_if_exists_def os_path_exists_def os_remove_def
      os_path_join_def UPLOAD_FOLDER_def)

theorem cleanup_fakes_leaves_no_fake_witness:
  "\<exists>st'. cleanup_fakes demo_state = Inr st' \<and> news st' = [demo_kept] \<and>
         (\<forall>r \<in> set (news st'). \<not> fake_score r > FAKE_THRESHOLD)"
  using cleanup_fakes_leaves_no_fake [of demo_state] by (auto simp: demo_cleanup)

text \<open>
  C5. The sweep is idempotent: in the state the first run returns the selection of fakes is
  empty, so a second run purges nothing and returns that state unchanged, and no row the
  first run selected is in the table afterwards.
\<close>

theorem cleanup_fakes_idempotent:
  "\<exists>st1. cleanup_fakes st = Inr st1 \<and> select_fakes st1 = [] \<and> cleanup_fakes st1 = Inr st1 \<and>
         (\<forall>r \<in> set (select_fakes st). r \<notin> set (news st1))"
proof -
  obtain fs' where run: "cleanup_fakes st =
     Inr (st\<lparr>files := fs', news := filter (\<lambda>r. \<not> over_threshold r) (news st)\<rparr>)"
    using cleanup_fakes_returns by blast
  let ?st1 = "st\<lparr>files := fs', news := filter (\<lambda>r. \<not> over_threshold r) (news st)\<rparr>"
  have none: "select_fakes ?st1 = []"
    by (simp add: select_fakes_def filter_empty_conv)
  then have again: "cleanup_fakes ?st1 = Inr ?st1"
    by (simp add: cleanup_fakes_def)
  have gone: "\<forall>r \<in> set (select_fakes st). r \<notin> set (news ?st1)"
    by (simp add: select_fakes_def)
  from run none again gone show ?thesis by blast
qed

text \<open>
  C6. A row above the threshold is deleted whatever the state of its files: a file that is
  missing is skipped, an exception of \<open>os.remove\<close> is swallowed, and the sweep returns
  without raising.
\<close>

theorem cleanup_fakes_orphan_safe:
  "r \<in> set (news st) \<Longrightarrow> fake_score r > FAKE_THRESHOLD \<Longrightarrow>
   \<exists>st'. cleanup_fakes st = Inr st' \<and> r \<notin> set (news st')"
proof -
  assume "r \<in> set (news st)" and over: "fake_score r > FAKE_THRESHOLD"
  obtain fs' where "cleanup_fakes st =
     Inr (st\<lparr>files := fs', news := filter (\<lambda>r. \<not> over_threshold r) (news st)\<rparr>)"
    using cleanup_fakes_returns by blast
  with over show ?thesis by (simp add: over_threshold_def)
qed

lemma demo_score_at_threshold: "improved_fake_score (demo_body 8) demo_title = 70"
  by code_simp

lemma demo_score_over: "improved_fake_score (demo_body 10) demo_title = 74"
  by code_simp

text \<open>
  C1. The handler rejects exactly when the score is above the threshold. On rejection the
  message carries the score and the table is unchanged; otherwise (equality included) a row
  with that score, title and body is appended to the table.
\<close>

theorem evaluate_submission_threshold:
  "((\<exists>s st'. evaluate_submission title author content image_name audio_name created_at st
              = Inr (Rejected s, st'))
      \<longleftrightarrow> improved_fake_score content title > FAKE_THRESHOLD) \<and>
   (improved_fake_score content title > FAKE_THRESHOLD \<longrightarrow>
      (\<exists>fs. evaluate_submission title author content image_name audio_name created_at st
             = Inr (Rejected (improved_fake_score content title), st\<lparr>files := fs\<rparr>))) \<and>
   (improved_fake_score content title \<le> FAKE_THRESHOLD \<longrightarrow>
      (\<exists>r. evaluate_submission title author content image_name audio_name created_at st
             = Inr (Published (improved_fake_score content title),
                    st\<lparr>news := news st @ [r], news_seq := Suc (news_seq st)\<rparr>) \<and>
           fake_score r = improved_fake_score content title \<and>
           row_title r = title \<and> row_content r = content))"
proof -
  let ?score = "improved_fake_score content title"
  let ?result = "evaluate_submission title author content image_name audio_name created_at st"
  obtain fs1 where d1: "discard_upload image_name (files st) = Inr fs1"
    by (cases "discard_upload image_name (files st)")
       (auto simp: discard_upload_def try_except_pass_def split: if_splits sum.splits)
  obtain fs2 where d2: "discard_upload audio_name fs1 = Inr fs2"
    by (cases "discard_upload audio_name fs1")
       (auto simp: discard_upload_def try_except_pass_def split: if_splits sum.splits)
  show ?thesis
  proof (cases "?score > FAKE_THRESHOLD")
    case True
    then have "?result = Inr (Rejected ?score, st\<lparr>files := fs2\<rparr>)"
      using d1 d2 by (simp add: evaluate_submission_def and_then_def)
    with True show ?thesis by auto
  next
    case False
    then have "?result = Inr (Published ?score,
        insert_news \<lparr>row_id = 0, row_title = title, row_author = Some author,
                     row_content = content, row_image = image_name,
                     row_audio = audio_name, row_created_at = created_at,
                     fake_score = ?score\<rparr> st)"
      by (simp add: evaluate_submission_def Let_def)
    with False show ?thesis by (auto simp: insert_news_def)
  qed
qed

theorem evaluate_submission_threshold_witness:
  "improved_fake_score (demo_body 8) demo_title \<le> FAKE_THRESHOLD \<and>
   (\<exists>r. evaluate_submission demo_title [] (demo_body 8) None None [] demo_state =
          Inr (Published 70, demo_state\<lparr>news := news demo_state @ [r],
                                          news_seq := Suc (news_seq demo_state)\<rparr>) \<and>
        fake_score r = 70) \<and>
   improved_fake_score (demo_body 10) demo_title > FAKE_THRESHOLD \<and>
   (\<exists>fs. evaluate_submission demo_title [] (demo_body 10) None None [] demo_state =
          Inr (Rejected 74, demo_state\<lparr>files := fs\<rparr>))"
  using evaluate_submission_threshold [where content = "demo_body 8" and title = demo_title
          and author = "[]" and image_name = None and audio_name = None and created_at = "[]"
          and st = demo_state]
        evaluate_submission_threshold [where content = "demo_body 10" and title = demo_title
          and author = "[]" and image_name = None and audio_name = None and created_at = "[]"
          and st = demo_state]
  by (auto simp: demo_score_at_threshold demo_score_over FAKE_THRESHOLD_def)

theorem cleanup_fakes_idempotent_witness:
  "select_fakes demo_state = [demo_fake] \<and>
   (\<exists>st1. cleanup_fakes demo_state = Inr st1 \<and> select_fakes st1 = [] \<and>
          cleanup_fakes st1 = Inr st1 \<and> demo_fake \<notin> set (news st1))"
proof -
  have sel: "select_fakes demo_state = [demo_fake]"
    by (simp add: select_fakes_def demo_state_def demo_fake_def demo_kept_def
        over_threshold_def FAKE_THRESHOLD_def)
  with cleanup_fakes_idempotent [of demo_state] show ?thesis by auto
qed

theorem cleanup_fakes_orphan_safe_witness:
  "demo_fake \<in> set (news demo_state) \<and> fake_score demo_fake > FAKE_THRESHOLD \<and>
   files demo_state (os_path_join UPLOAD_FOLDER (the (row_image demo_fake))) = None \<and>
   os_remove (files demo_state) (os_path_join UPLOAD_FOLDER (the (row_audio demo_fake)))
     = Inl PermissionError \<and>
   (\<exists>st'. cleanup_fakes demo_state = Inr st' \<and> demo_fake \<notin> set (news st'))"
proof -
  have a: "demo_fake \<in> set (news demo_state)"
    by (simp add: demo_state_def)
  have b: "fake_score demo_fake > FAKE_THRESHOLD"
    by (simp add: demo_fake_def FAKE_THRESHOLD_def)
  have c: "files demo_state (os_path_join UPLOAD_FOLDER (the (row_image demo_fake))) = None"
    by (simp add: demo_state_def demo_fake_def os_path_join_def UPLOAD_FOLDER_def)
  have d: "os_remove (files demo_state) (os_path_join UPLOAD_FOLDER (the (row_audio demo_fake)))
     = Inl PermissionError"
    by (simp add: demo_state_def demo_fake_def os_remove_def)
  from a b c d cleanup_fakes_orphan_safe [OF a b] show ?thesis by simp
qed


section \<open>Properties of the text signals\<close>

lemma lower_Nil: "lower [] = []"
  by (simp add: lower_def)

lemma lower_Cons: "lower (x # xs) = lower_cp x # lower xs"
  by (simp add: lower_def)

lemma lower_append: "lower (xs @ ys) = lower xs @ lower ys"
  by (simp add: lower_def)

subsection \<open>Matches survive when text is appended\<close>

lemma word_after_append: "s \<noteq> [] \<Longrightarrow> word_after (s @ z) = word_after s"
  by (cases s) (simp_all add: word_after_def)

lemma match_here_append:
  "match_here ic pat prev s \<Longrightarrow> (WordB \<in> set pat \<longrightarrow> \<not> word_after z) \<Longrightarrow>
   match_here ic pat prev (s @ z)"
proof (induction ic pat prev s rule: match_here.induct)
  case (4 ic p as prev)
  then show ?case by (cases z) auto
next
  case (8 ic as prev s)
  then show ?case
    by (cases s) (auto simp: word_after_def)
qed auto

lemma search_from_head: "match_here ic pat prev s \<Longrightarrow> search_from ic pat prev s"
  by (cases s) auto

lemma search_from_append:
  "search_from ic pat prev s \<Longrightarrow> (WordB \<in> set pat \<longrightarrow> \<not> word_after z) \<Longrightarrow>
   search_from ic pat prev (s @ z)"
proof (induction s arbitrary: prev)
  case Nil
  then show ?case
    using match_here_append [of ic pat prev "[]" z] by (simp add: search_from_head)
next
  case (Cons x xs)
  then show ?case
    using match_here_append [of ic pat prev "x # xs" z] by auto
qed

lemma match_here_prev:
  "WordB \<notin> set pat \<Longrightarrow> match_here ic pat prev s = match_here ic pat prev' s"
  by (induction ic pat prev s arbitrary: prev' rule: match_here.induct) auto

lemma search_from_prev:
  "WordB \<notin> set pat \<Longrightarrow> search_from ic pat prev s = search_from ic pat prev' s"
proof (induction s arbitrary: prev prev')
  case Nil
  then show ?case using match_here_prev [of pat ic prev "[]" prev'] by simp
next
  case (Cons x xs)
  then show ?case using match_here_prev [of pat ic prev "x # xs" prev'] by auto
qed

subsection \<open>What \<open>strip\<close> leaves of a title followed by a body\<close>

lemma strip_title_body:
  assumes "t \<noteq> []" "\<not> is_space (hd t)" "\<not> is_space (last t)"
  shows "\<exists>r. strip (t @ [10] @ body) = t @ r \<and>
             (r = [] \<or> (\<exists>b z. r = 10 # b \<and> body = b @ z))"
proof -
  from assms(1,2) have front: "dropWhile is_space (t @ 10 # body) = t @ 10 # body"
    by (cases t) auto
  have sp10: "is_space 10"
    by (simp add: is_space_def)
  from assms(1,3) have rear: "dropWhile is_space (rev t) = rev t"
    by (cases "rev t") (auto simp: hd_rev [symmetric] simp del: hd_rev)
  show ?thesis
  proof (cases "\<forall>x \<in> set body. is_space x")
    case True
    then have "dropWhile is_space (rev body @ 10 # rev t) = dropWhile is_space (10 # rev t)"
      by (intro dropWhile_append2) auto
    then have "dropWhile is_space (rev body @ 10 # rev t) = rev t"
      using sp10 rear by simp
    then have "strip (t @ [10] @ body) = t @ []"
      by (simp add: strip_def front)
    then show ?thesis by blast
  next
    case False
    then have "dropWhile is_space (rev body @ 10 # rev t) =
               dropWhile is_space (rev body) @ 10 # rev t"
      by (auto simp: dropWhile_append1)
    then have eq: "strip (t @ [10] @ body) = t @ 10 # rev (dropWhile is_space (rev body))"
      by (simp add: strip_def front)
    have "rev body = takeWhile is_space (rev body) @ dropWhile is_space (rev body)"
      by simp
    then have "body = rev (dropWhile is_space (rev body)) @ rev (takeWhile is_space (rev body))"
      by (metis rev_append rev_rev_ident)
    with eq show ?thesis by blast
  qed
qed

lemma title_combined:
  "\<exists>r. combined_text scenario_title body = scenario_title @ r \<and>
       (r = [] \<or> (\<exists>b z. r = 10 # b \<and> body = b @ z))"
  unfolding combined_text_def
  by (rule strip_title_body) (simp_all add: scenario_title_def is_space_def)

subsection \<open>The signals that the title of the scenario brings\<close>

lemma title_shok:
  "str_in (lower [1064, 1054, 1050]) (lower (scenario_title @ r))"
  by (simp add: scenario_title_def lower_Nil lower_Cons lower_append lower_cp_def)

lemma title_srochno:
  "str_in (lower [1057, 1056, 1054, 1063, 1053, 1054]) (lower (scenario_title @ r))"
  by (simp add: scenario_title_def lower_Nil lower_Cons lower_append lower_cp_def)

lemma title_reptiloid: "re_search True TELL_REPTILOID (scenario_title @ r)"
  by (simp add: re_search_def TELL_REPTILOID_def lits_def scenario_title_def lit_eq_def
      lower_cp_def)

lemma title_clickbait:
  "re_search True ([WordB] @ lits [1096, 1086, 1082] @ [WordB]) (scenario_title @ r)"
  by (simp add: re_search_def lits_def scenario_title_def lit_eq_def lower_cp_def
      word_before_def word_after_def is_word_cp_def)

lemma title_url:
  "re_search False URL_REGEX (scenario_title @ r) = search_from False URL_REGEX (Some 33) r"
  by (simp add: re_search_def URL_REGEX_def lits_def scenario_title_def lit_eq_def)

lemma title_excl: "count_list scenario_title 33 = 6"
  by (simp add: scenario_title_def)

lemma points_count:
  "sum_list (map (\<lambda>w. if Q w then k else 0) ws) = k * real (length (filter Q ws))"
  by (induction ws) (simp_all add: algebra_simps)

lemma title_sensational_points: "20 \<le> sensational_points (scenario_title @ r)"
proof -
  let ?Q = "\<lambda>w. str_in (lower w) (lower (scenario_title @ r))"
  have "SENSATIONAL = [ [1064, 1054, 1050], [1057, 1056, 1054, 1063, 1053, 1054] ] @
                      drop 2 SENSATIONAL"
    by (simp add: SENSATIONAL_def)
  then have "length (filter ?Q SENSATIONAL) =
      length (filter ?Q [ [1064, 1054, 1050], [1057, 1056, 1054, 1063, 1053, 1054] ]) +
      length (filter ?Q (drop 2 SENSATIONAL))"
    by (metis filter_append length_append)
  then have "2 \<le> length (filter ?Q SENSATIONAL)"
    using title_shok [of r] title_srochno [of r] by simp
  then have "(10::real) * 2 \<le> 10 * real (length (filter ?Q SENSATIONAL))"
    by simp
  then show ?thesis
    by (simp add: sensational_points_def points_count)
qed

lemma title_tells_points: "18 \<le> tells_points (scenario_title @ r)"
proof -
  let ?Q = "\<lambda>pat. re_search True pat (scenario_title @ r)"
  have "TELL_REPTILOID \<in> set (filter ?Q SPACE_FAKE_TELLS)"
    using title_reptiloid [of r] by (simp add: SPACE_FAKE_TELLS_def)
  then have "1 \<le> length (filter ?Q SPACE_FAKE_TELLS)"
    by (metis One_nat_def Suc_leI length_pos_if_in_set)
  then have "(18::real) * 1 \<le> 18 * real (length (filter ?Q SPACE_FAKE_TELLS))"
    by simp
  then show ?thesis
    by (simp add: tells_points_def points_count)
qed

lemma title_clickbait_points: "clickbait_points (scenario_title @ r) = 7"
  using title_clickbait [of r] by (simp add: clickbait_points_def CLICKBAIT_def)

lemma punct_lower:
  assumes "6 \<le> e"
  shows "12 \<le> min (real e * 2) 20 + min (real q * 1.5) 15"
proof -
  from assms have "12 \<le> min (real e * 2) 20"
    by simp
  moreover have "0 \<le> min (real q * 1.5) 15"
    by simp
  ultimately show ?thesis by linarith
qed

lemma title_punct_points: "12 \<le> punct_points (scenario_title @ r)"
proof -
  have "6 \<le> count_list (scenario_title @ r) 33"
    by (simp add: title_excl)
  then show ?thesis
    unfolding punct_points_def Let_def by (rule punct_lower)
qed

lemma caps_points_nonneg: "0 \<le> caps_points ws"
  by (simp add: caps_points_def Let_def)

lemma title_url_points:
  assumes "\<not> re_search False URL_REGEX body"
    and "r = [] \<or> (\<exists>b z. r = 10 # b \<and> body = b @ z)"
  shows "url_points (scenario_title @ r) = 12"
proof -
  have nowb: "WordB \<notin> set URL_REGEX"
    by (simp add: URL_REGEX_def lits_def)
  have "\<not> search_from False URL_REGEX (Some 33) r"
    using assms(2)
  proof
    assume "r = []"
    then show ?thesis
      by (simp add: URL_REGEX_def lits_def)
  next
    assume "\<exists>b z. r = 10 # b \<and> body = b @ z"
    then obtain b z where r: "r = 10 # b" and body: "body = b @ z"
      by blast
    have "\<not> search_from False URL_REGEX None b"
    proof
      assume "search_from False URL_REGEX None b"
      then have "search_from False URL_REGEX None (b @ z)"
        using nowb by (intro search_from_append) auto
      with assms(1) body show False
        by (simp add: re_search_def)
    qed
    then have "\<not> search_from False URL_REGEX (Some 10) b"
      using search_from_prev [OF nowb, of False "Some 10" b None] by simp
    then show ?thesis
      by (simp add: r URL_REGEX_def lits_def lit_eq_def)
  qed
  then show ?thesis
    by (simp add: url_points_def title_url)
qed

lemma evaluate_submission_rejects:
  assumes "improved_fake_score content title > FAKE_THRESHOLD"
  shows "\<exists>fs. evaluate_submission title author content image_name audio_name created_at st
           = Inr (Rejected (improved_fake_score content title), st\<lparr>files := fs\<rparr>)"
proof -
  obtain fs1 where d1: "discard_upload image_name (files st) = Inr fs1"
    by (cases "discard_upload image_name (files st)")
       (auto simp: discard_upload_def try_except_pass_def split: if_splits sum.splits)
  obtain fs2 where d2: "discard_upload audio_name fs1 = Inr fs2"
    by (cases "discard_upload audio_name fs1")
       (auto simp: discard_upload_def try_except_pass_def split: if_splits sum.splits)
  from assms d1 d2 have "evaluate_submission title author content image_name audio_name created_at st
           = Inr (Rejected (improved_fake_score content title), st\<lparr>files := fs2\<rparr>)"
    by (simp add: evaluate_submission_def and_then_def)
  then show ?thesis by blast
qed

text \<open>
  C7, as amended. With the title of the scenario, a body that is not empty, holds no URL
  and is shorter than 233 characters (so that the combined text is shorter than 280) scores
  above 70, and the handler rejects the submission whatever the state.
\<close>

theorem scenario_a_short_body:
  assumes "body \<noteq> []" and "\<not> re_search False URL_REGEX body" and "length body < 233"
  shows "improved_fake_score body scenario_title > 70 \<and>
         (\<exists>fs. evaluate_submission scenario_title author body image_name audio_name created_at st
            = Inr (Rejected (improved_fake_score body scenario_title), st\<lparr>files := fs\<rparr>))"
proof -
  obtain r where c: "combined_text scenario_title body = scenario_title @ r"
    and r: "r = [] \<or> (\<exists>b z. r = 10 # b \<and> body = b @ z)"
    using title_combined by blast
  from r have "length r \<le> Suc (length body)"
    by auto
  with assms(3) have short: "length (scenario_title @ r) < 280"
    by (simp add: scenario_title_def)
  let ?c = "scenario_title @ r"
  have "0 \<le> (if real (sum_list (map length (findall_words ?c))) /
                 real (max 1 (length (findall_words ?c))) < 4 then 5 else (0::real))"
    by simp
  with short have len: "6 \<le> length_points ?c (findall_words ?c)"
    by (simp add: length_points_def Let_def)
  have "75 \<le> raw_score ?c"
    using title_sensational_points [of r] title_tells_points [of r]
      title_url_points [OF assms(2) r] title_punct_points [of r]
      caps_points_nonneg [of "findall_words ?c"] len title_clickbait_points [of r]
    by (simp add: raw_score_def Let_def)
  then have "75 \<le> improved_fake_score body scenario_title"
    using assms(1) by (simp add: improved_fake_score_def c)
  then have over: "improved_fake_score body scenario_title > 70"
    by simp
  then have "improved_fake_score body scenario_title > FAKE_THRESHOLD"
    by (simp add: FAKE_THRESHOLD_def)
  from over evaluate_submission_rejects [OF this] show ?thesis
    by blast
qed

theorem scenario_a_short_body_witness:
  "[1090, 1077, 1082, 1089, 1090] \<noteq> ([] :: ustr) \<and>
   \<not> re_search False URL_REGEX [1090, 1077, 1082, 1089, 1090] \<and>
   length ([1090, 1077, 1082, 1089, 1090] :: ustr) < 233 \<and>
   improved_fake_score [1090, 1077, 1082, 1089, 1090] scenario_title > 70 \<and>
   (\<exists>fs. evaluate_submission scenario_title [] [1090, 1077, 1082, 1089, 1090] None None []
            demo_state
          = Inr (Rejected (improved_fake_score [1090, 1077, 1082, 1089, 1090] scenario_title),
                 demo_state\<lparr>files := fs\<rparr>))"
proof -
  have a: "[1090, 1077, 1082, 1089, 1090] \<noteq> ([] :: ustr)"
    by simp
  have b: "\<not> re_search False URL_REGEX [1090, 1077, 1082, 1089, 1090]"
    by code_simp
  have c: "length ([1090, 1077, 1082, 1089, 1090] :: ustr) < 233"
    by simp
  from scenario_a_short_body [OF a b c, of "[]" None None "[]" demo_state] a b c
  show ?thesis by blast
qed

subsection \<open>The long body\<close>

lemma str_in_sublist: "str_in w s = sublist w s"
  by (induction s) (auto simp: sublist_Cons_right)

lemma set_filler: "set (filler_body n) \<subseteq> {32, 97, 98, 99, 100}"
  by (auto simp: filler_body_def)

lemma str_in_filler:
  "\<not> set w \<subseteq> {32, 97, 98, 99, 100} \<Longrightarrow> str_in w (filler_body n) = False"
  using set_mono_sublist [of w "filler_body n"] set_filler [of n]
  by (auto simp: str_in_sublist)

lemma match_here_needs_lit:
  "match_here ic pat prev s \<Longrightarrow> Lit p \<in> set pat \<Longrightarrow> \<exists>x \<in> set s. lit_eq ic p x"
  by (induction ic pat prev s rule: match_here.induct) auto

lemma search_from_needs_lit:
  "search_from ic pat prev s \<Longrightarrow> Lit p \<in> set pat \<Longrightarrow> \<exists>x \<in> set s. lit_eq ic p x"
proof (induction ic pat prev s rule: search_from.induct)
  case (1 ic pat prev)
  then show ?case
    using match_here_needs_lit [of ic pat prev "[]" p] by simp
next
  case (2 ic pat prev x xs)
  from "2.prems"(1) consider "match_here ic pat prev (x # xs)" | "search_from ic pat (Some x) xs"
    by auto
  then show ?case
  proof cases
    case 1
    then show ?thesis
      using match_here_needs_lit [OF _ "2.prems"(2)] by blast
  next
    case 2
    then have "\<exists>y \<in> set xs. lit_eq ic p y"
      using "2.IH" "2.prems"(2) by blast
    then show ?thesis by auto
  qed
qed

lemma search_from_filler:
  assumes "Lit p \<in> set pat" "list_all (\<lambda>x. \<not> lit_eq ic p x) [32, 97, 98, 99, 100]"
  shows "search_from ic pat prev (filler_body n) = False"
proof -
  have "\<not> lit_eq ic p x" if "x \<in> set (filler_body n)" for x
    using that set_filler [of n] assms(2) by auto
  then show ?thesis
    using search_from_needs_lit [OF _ assms(1)] by blast
qed

lemma words_from_filler:
  "words_from [] (concat (replicate n [97, 98, 99, 100, 32]) @ rest) =
   replicate n [97, 98, 99, 100] @ words_from [] rest"
  by (induction n) (simp_all add: is_token_cp_def flush_def)

lemma findall_words_filler:
  "findall_words (filler_body n) = replicate (Suc n) [97, 98, 99, 100]"
  by (simp add: findall_words_def filler_body_def words_from_filler is_token_cp_def flush_def
      replicate_append_same)

lemma lower_filler: "lower (filler_body n) = filler_body n"
  by (simp add: lower_def filler_body_def map_concat lower_cp_def)

lemma count_filler: "c \<notin> {32, 97, 98, 99, 100} \<Longrightarrow> count_list (filler_body n) c = 0"
  using set_filler [of n] by (auto simp: count_list_0_iff)

lemma length_filler: "length (filler_body n) = 5 * n + 4"
  by (induction n) (simp_all add: filler_body_def)

lemma search_from_filler_ex:
  assumes "list_ex (\<lambda>a. case a of Lit p \<Rightarrow> list_all (\<lambda>x. \<not> lit_eq ic p x) [32, 97, 98, 99, 100]
                          | _ \<Rightarrow> False) pat"
  shows "search_from ic pat prev (filler_body n) = False"
proof -
  from assms obtain a where a: "a \<in> set pat"
    "case a of Lit p \<Rightarrow> list_all (\<lambda>x. \<not> lit_eq ic p x) [32, 97, 98, 99, 100] | _ \<Rightarrow> False"
    by (auto simp: list_ex_iff)
  from a(2) obtain p where "a = Lit p" "list_all (\<lambda>x. \<not> lit_eq ic p x) [32, 97, 98, 99, 100]"
    by (cases a) auto
  with a(1) show ?thesis
    by (intro search_from_filler [where p = p]) auto
qed

lemma strip_id: "s \<noteq> [] \<Longrightarrow> \<not> is_space (hd s) \<Longrightarrow> \<not> is_space (last s) \<Longrightarrow> strip s = s"
proof -
  assume s: "s \<noteq> []" and h: "\<not> is_space (hd s)" and l: "\<not> is_space (last s)"
  from s h have 1: "dropWhile is_space s = s"
    by (cases s) auto
  from s l have 2: "dropWhile is_space (rev s) = rev s"
    by (cases "rev s") (auto simp: hd_rev [symmetric] simp del: hd_rev)
  show ?thesis by (simp add: strip_def 1 2)
qed

lemma combined_filler:
  "combined_text scenario_title (filler_body n) = scenario_title @ 10 # filler_body n"
proof -
  have "strip (scenario_title @ 10 # filler_body n) = scenario_title @ 10 # filler_body n"
    by (rule strip_id) (simp_all add: scenario_title_def filler_body_def is_space_def)
  then show ?thesis by (simp add: combined_text_def)
qed

lemma filler_sensational:
  "sensational_points (scenario_title @ 10 # filler_body n) = 20"
  by (simp add: sensational_points_def SENSATIONAL_def scenario_title_def lower_Nil lower_Cons
      lower_append lower_filler lower_cp_def str_in_filler)

lemma filler_tells:
  "tells_points (scenario_title @ 10 # filler_body n) = 18"
  by (simp add: tells_points_def SPACE_FAKE_TELLS_def TELL_FLAT_EARTH_def TELL_REPTILOID_def
      TELL_UFO_def TELL_CONSPIRACY_def lits_def re_search_def scenario_title_def lit_eq_def
      lower_cp_def word_before_def word_after_def is_word_cp_def is_space_def
      search_from_filler_ex)

lemma filler_url:
  "url_points (scenario_title @ 10 # filler_body n) = 12"
  by (simp add: url_points_def URL_REGEX_def lits_def re_search_def scenario_title_def lit_eq_def
      search_from_filler_ex)

lemma filler_clickbait:
  "clickbait_points (scenario_title @ 10 # filler_body n) = 7"
  by (simp add: clickbait_points_def CLICKBAIT_def lits_def re_search_def scenario_title_def
      lit_eq_def lower_cp_def word_before_def word_after_def is_word_cp_def is_space_def
      search_from_filler_ex)

lemma filler_punct:
  "punct_points (scenario_title @ 10 # filler_body n) = 12"
  by (simp add: punct_points_def scenario_title_def count_filler)

lemma filler_words:
  "findall_words (scenario_title @ 10 # filler_body n) =
     [ [1057, 1056, 1054, 1063, 1053, 1054], [1064, 1054, 1050],
      [1086, 1073, 1085, 1072, 1088, 1091, 1078, 1077, 1085],
      [1088, 1077, 1087, 1090, 1080, 1083, 1086, 1080, 1076], [1085, 1072],
      [1052, 1072, 1088, 1089, 1077] ] @ replicate (Suc n) [97, 98, 99, 100]"
  using findall_words_filler [of n]
  by (simp add: findall_words_def scenario_title_def is_token_cp_def flush_def)

lemma filler_caps:
  "caps_points (findall_words (scenario_title @ 10 # filler_body 119)) = 20 / 21"
  by (simp add: filler_words caps_points_def UPPERCASE_WORD_match_def is_upper_cp_def
      filter_replicate)

lemma filler_length:
  "length_points (scenario_title @ 10 # filler_body 119)
     (findall_words (scenario_title @ 10 # filler_body 119)) = 0"
proof -
  have "length (scenario_title @ 10 # filler_body 119) = 646"
    by (simp add: length_filler scenario_title_def)
  then show ?thesis
    by (simp add: filler_words length_points_def sum_list_replicate)
qed

lemma filler_score: "improved_fake_score (filler_body 119) scenario_title = 1469 / 21"
proof -
  have "filler_body 119 \<noteq> []"
    by (simp add: filler_body_def)
  moreover have "raw_score (scenario_title @ 10 # filler_body 119) = 1469 / 21"
    by (simp add: raw_score_def Let_def filler_sensational filler_tells filler_url
        filler_punct filler_caps filler_length filler_clickbait)
  ultimately show ?thesis
    by (simp add: improved_fake_score_def combined_filler)
qed

lemma filler_no_url: "\<not> re_search False URL_REGEX (filler_body 119)"
  by (simp add: re_search_def URL_REGEX_def lits_def lit_eq_def search_from_filler_ex)

text \<open>
  C7 as stated fails for a long body: with \<open>abcd\<close> 120 times the combined text has 646
  characters and 126 words, one of them in capitals, and the score is 69 + 120/126, below
  the threshold, so the submission is published.
\<close>

theorem scenario_a_counterexample:
  "filler_body 119 \<noteq> [] \<and>
   \<not> re_search False URL_REGEX (filler_body 119) \<and>
   improved_fake_score (filler_body 119) scenario_title = 1469 / 21 \<and>
   \<not> improved_fake_score (filler_body 119) scenario_title > 70 \<and>
   evaluate_submission scenario_title [] (filler_body 119) None None [] demo_state =
     Inr (Published (1469 / 21),
          insert_news \<lparr>row_id = 0, row_title = scenario_title, row_author = Some [],
                       row_content = filler_body 119, row_image = None, row_audio = None,
                       row_created_at = [], fake_score = 1469 / 21\<rparr> demo_state)"
proof -
  have "filler_body 119 \<noteq> []"
    by (simp add: filler_body_def)
  then show ?thesis
    by (simp add: filler_no_url filler_score evaluate_submission_def FAKE_THRESHOLD_def Let_def)
qed


subsection \<open>Appending an instance of a red-flag pattern\<close>

lemma match_here_word_before:
  "word_before prev = word_before prev' \<Longrightarrow>
   match_here ic pat prev s = match_here ic pat prev' s"
proof (induction ic pat prev s arbitrary: prev' rule: match_here.induct)
  case (1 ic prev s)
  show ?case by simp
next
  case (2 ic p as prev)
  show ?case by simp
next
  case (3 ic p as prev x xs)
  show ?case by simp
next
  case (4 ic p as prev)
  from "4.IH" [OF "4.prems"] show ?case by simp
next
  case (5 ic p as prev x xs)
  from "5.IH"(2) [OF "5.prems"] show ?case by simp
next
  case (6 ic as prev)
  show ?case by simp
next
  case (7 ic as prev x xs)
  show ?case by simp
next
  case (8 ic as prev s)
  from "8.IH" [OF "8.prems"] "8.prems" show ?case by simp
qed

lemma match_here_two_prevs:
  "match_here ic pat prev s \<Longrightarrow> match_here ic pat None s \<or> match_here ic pat (Some 48) s"
proof (cases "word_before prev")
  case True
  assume "match_here ic pat prev s"
  then have "match_here ic pat (Some 48) s"
    using match_here_word_before [of prev "Some 48" ic pat s] True
    by (simp add: word_before_def is_word_cp_def)
  then show ?thesis ..
next
  case False
  assume "match_here ic pat prev s"
  then have "match_here ic pat None s"
    using match_here_word_before [of prev None ic pat s] False
    by (simp add: word_before_def)
  then show ?thesis ..
qed

lemma match_here_cut:
  "match_here ic pat prev (s @ z) \<Longrightarrow> \<not> word_after z \<Longrightarrow>
   match_here ic pat prev s \<or>
   (\<exists>pat' prev'. suffix pat' pat \<and> consuming pat' \<and> match_here ic pat' prev' z)"
proof (induction ic pat prev s rule: match_here.induct)
  case (1 ic prev s)
  then show ?case by simp
next
  case (2 ic p as prev)
  then have "suffix (Lit p # as) (Lit p # as) \<and> consuming (Lit p # as) \<and>
             match_here ic (Lit p # as) prev z"
    by (simp add: consuming_def)
  then show ?case by blast
next
  case (3 ic p as prev x xs)
  then show ?case by (auto intro: suffix_ConsI)
next
  case (4 ic p as prev)
  then have "suffix (Opt p # as) (Opt p # as) \<and> consuming (Opt p # as) \<and>
             match_here ic (Opt p # as) prev z"
    by (simp add: consuming_def)
  then show ?case by blast
next
  case (5 ic p as prev x xs)
  then show ?case by (auto intro: suffix_ConsI)
next
  case (6 ic as prev)
  then have "suffix (Spaces1 # as) (Spaces1 # as) \<and> consuming (Spaces1 # as) \<and>
             match_here ic (Spaces1 # as) prev z"
    by (simp add: consuming_def)
  then show ?case by blast
next
  case (7 ic as prev x xs)
  then show ?case by (auto intro: suffix_ConsI)
next
  case (8 ic as prev s)
  from "8.prems" have wb: "word_before prev \<noteq> word_after (s @ z)"
    and rest: "match_here ic as prev (s @ z)"
    by auto
  from "8.IH" [OF rest "8.prems"(2)] show ?case
  proof
    assume m: "match_here ic as prev s"
    have "word_after (s @ z) = word_after s"
      using "8.prems"(2) by (cases s) (simp_all add: word_after_def)
    with wb m show ?thesis by simp
  next
    assume "\<exists>pat' prev'. suffix pat' as \<and> consuming pat' \<and> match_here ic pat' prev' z"
    then show ?thesis by (auto intro: suffix_ConsI)
  qed
qed

lemma search_from_finds:
  "search_from ic pat prev z \<Longrightarrow> \<exists>prev' z2. suffix z2 z \<and> match_here ic pat prev' z2"
proof (induction z arbitrary: prev)
  case Nil
  then show ?case by auto
next
  case (Cons y ys)
  from Cons.prems consider "match_here ic pat prev (y # ys)" | "search_from ic pat (Some y) ys"
    by auto
  then show ?case
  proof cases
    case 1
    then show ?thesis by (meson suffix_order.refl)
  next
    case 2
    then obtain prev' z2 where "suffix z2 ys" "match_here ic pat prev' z2"
      using Cons.IH by blast
    then show ?thesis by (meson suffix_ConsI)
  qed
qed

lemma search_from_cut:
  "search_from ic pat prev (s @ z) \<Longrightarrow> \<not> word_after z \<Longrightarrow>
   search_from ic pat prev s \<or>
   (\<exists>pat' prev'. suffix pat' pat \<and> consuming pat' \<and> match_here ic pat' prev' z) \<or>
   (\<exists>prev' z2. suffix z2 z \<and> match_here ic pat prev' z2)"
proof (induction s arbitrary: prev)
  case Nil
  then have "search_from ic pat prev z"
    by simp
  then show ?case
    using search_from_finds by blast
next
  case (Cons x xs)
  from Cons.prems(1) consider "match_here ic pat prev ((x # xs) @ z)"
    | "search_from ic pat (Some x) (xs @ z)"
    by auto
  then show ?case
  proof cases
    case 1
    from match_here_cut [OF 1 Cons.prems(2)] show ?thesis
      by auto
  next
    case 2
    from Cons.IH [OF 2 Cons.prems(2)] show ?thesis by auto
  qed
qed

lemma no_overlap_search:
  assumes "no_overlap pat z" "\<not> word_after z"
  shows "search_from True pat prev (s @ z) = search_from True pat prev s"
proof
  assume "search_from True pat prev (s @ z)"
  from search_from_cut [OF this assms(2)] consider "search_from True pat prev s"
    | pat' prev' where "suffix pat' pat" "consuming pat'" "match_here True pat' prev' z"
    | prev' z2 where "suffix z2 z" "match_here True pat prev' z2"
    by blast
  then show "search_from True pat prev s"
  proof cases
    case 1
    then show ?thesis .
  next
    case 2
    from assms(1) 2(1,2) have
      "\<not> match_here True pat' None z \<and> \<not> match_here True pat' (Some 48) z"
      by (auto simp: no_overlap_def list_all_iff)
    with match_here_two_prevs [OF 2(3)] show ?thesis by blast
  next
    case 3
    from assms(1) 3(1) have
      "\<not> match_here True pat None z2 \<and> \<not> match_here True pat (Some 48) z2"
      by (auto simp: no_overlap_def list_all_iff)
    with match_here_two_prevs [OF 3(2)] show ?thesis by blast
  qed
next
  assume "search_from True pat prev s"
  then show "search_from True pat prev (s @ z)"
    using assms(2) by (intro search_from_append) auto
qed

lemma search_from_at_end:
  "pre \<noteq> [] \<Longrightarrow> match_here ic pat (Some (last pre)) z \<Longrightarrow> search_from ic pat prev (pre @ z)"
proof (induction pre arbitrary: prev)
  case Nil
  then show ?case by simp
next
  case (Cons x xs)
  show ?case
  proof (cases "xs = []")
    case True
    with Cons.prems show ?thesis
      by (cases z) (auto simp: search_from_head)
  next
    case False
    with Cons show ?thesis by auto
  qed
qed

lemma instances_checked: "instances_checked"
  by code_simp

lemma instance_facts:
  assumes "i < 4" "j < 4"
  shows "j = i \<Longrightarrow> match_here True (SPACE_FAKE_TELLS ! j) (Some 32) (TELL_INSTANCES ! i)"
    and "j \<noteq> i \<Longrightarrow> no_overlap (SPACE_FAKE_TELLS ! j) (32 # TELL_INSTANCES ! i)"
proof -
  from assms have "i \<in> set [0, 1, 2, 3]" "j \<in> set [0, 1, 2, 3]"
    by auto
  with instances_checked have
    "if j = i then match_here True (SPACE_FAKE_TELLS ! j) (Some 32) (TELL_INSTANCES ! i)
     else no_overlap (SPACE_FAKE_TELLS ! j) (32 # TELL_INSTANCES ! i)"
    unfolding instances_checked_def list_all_iff by blast
  then show "j = i \<Longrightarrow> match_here True (SPACE_FAKE_TELLS ! j) (Some 32) (TELL_INSTANCES ! i)"
    and "j \<noteq> i \<Longrightarrow> no_overlap (SPACE_FAKE_TELLS ! j) (32 # TELL_INSTANCES ! i)"
    by (auto split: if_splits)
qed

lemma append_instance_search:
  assumes "i < 4" "j < 4"
  shows "re_search True (SPACE_FAKE_TELLS ! j) (c @ 32 # TELL_INSTANCES ! i) =
         (j = i \<or> re_search True (SPACE_FAKE_TELLS ! j) c)"
proof (cases "j = i")
  case True
  have "search_from True (SPACE_FAKE_TELLS ! j) None ((c @ [32]) @ TELL_INSTANCES ! i)"
    using instance_facts(1) [OF assms True] by (intro search_from_at_end) simp_all
  with True show ?thesis by (simp add: re_search_def)
next
  case False
  have "\<not> word_after (32 # TELL_INSTANCES ! i)"
    by (simp add: word_after_def is_word_cp_def)
  then have "search_from True (SPACE_FAKE_TELLS ! j) None (c @ 32 # TELL_INSTANCES ! i) =
        search_from True (SPACE_FAKE_TELLS ! j) None c"
    using instance_facts(2) [OF assms False] by (intro no_overlap_search) simp_all
  with False show ?thesis by (simp add: re_search_def)
qed

lemma tells_points_nth:
  "tells_points c =
     (\<Sum>j\<leftarrow>[0, 1, 2, 3]. if re_search True (SPACE_FAKE_TELLS ! j) c then 18 else 0)"
  by (simp add: tells_points_def SPACE_FAKE_TELLS_def)

lemma tells_points_instance:
  assumes "i < 4"
  shows "tells_points (c @ 32 # TELL_INSTANCES ! i) =
         tells_points c + (if re_search True (SPACE_FAKE_TELLS ! i) c then 0 else 18)"
proof -
  from assms consider "i = 0" | "i = 1" | "i = 2" | "i = 3"
    by linarith
  then show ?thesis
    by cases (simp_all add: tells_points_nth append_instance_search)
qed

subsection \<open>\<open>strip\<close> and a body that ends in a visible character\<close>

lemma dropWhile_keeps_last:
  "xs \<noteq> [] \<Longrightarrow> \<not> P (last xs) \<Longrightarrow> dropWhile P xs \<noteq> [] \<and> last (dropWhile P xs) = last xs"
  by (induction xs) (auto split: if_splits)

lemma strip_visible_end:
  assumes "xs \<noteq> []" "\<not> is_space (last xs)"
  shows "strip xs = dropWhile is_space xs"
proof -
  let ?l = "dropWhile is_space xs"
  from dropWhile_keeps_last [of xs is_space] assms have "?l \<noteq> []" "\<not> is_space (last ?l)"
    by auto
  then have "dropWhile is_space (rev ?l) = rev ?l"
    by (cases "rev ?l") (auto simp: hd_rev [symmetric] simp del: hd_rev)
  then show ?thesis by (simp add: strip_def)
qed

lemma combined_text_append:
  assumes "text \<noteq> []" "\<not> is_space (last text)" "extra \<noteq> []" "\<not> is_space (last extra)"
  shows "combined_text title (text @ extra) = combined_text title text @ extra"
proof -
  let ?a = "title @ 10 # text"
  have a: "?a \<noteq> []" "\<not> is_space (last ?a)"
    using assms(1,2) by simp_all
  have "last text \<in> set ?a"
    using assms(1) by simp
  then have "dropWhile is_space (?a @ extra) = dropWhile is_space ?a @ extra"
    using assms(2) by (intro dropWhile_append1) auto
  moreover have "strip (?a @ extra) = dropWhile is_space (?a @ extra)"
    using assms(3,4) by (intro strip_visible_end) simp_all
  moreover have "strip ?a = dropWhile is_space ?a"
    using a by (rule strip_visible_end)
  ultimately show ?thesis
    by (simp add: combined_text_def)
qed

text \<open>
  C4, as amended. The part of the score that comes from the red-flag patterns counts each
  pattern once. When an instance of a listed pattern is appended, after a space, to a body
  that does not end in white space, that part stays the same if the pattern matched before,
  and grows by 18 if it did not.
\<close>

theorem tells_points_append_instance:
  assumes "text \<noteq> []" "\<not> is_space (last text)" "i < length SPACE_FAKE_TELLS"
  shows "tells_points (combined_text title (text @ 32 # TELL_INSTANCES ! i)) =
         tells_points (combined_text title text) +
         (if re_search True (SPACE_FAKE_TELLS ! i) (combined_text title text) then 0 else 18)"
proof -
  from assms(3) have i: "i < 4"
    by (simp add: SPACE_FAKE_TELLS_def)
  then consider "i = 0" | "i = 1" | "i = 2" | "i = 3"
    by linarith
  then have "\<not> is_space (last (32 # TELL_INSTANCES ! i))"
    by cases (simp_all add: TELL_INSTANCES_def is_space_def)
  then have "combined_text title (text @ 32 # TELL_INSTANCES ! i) =
             combined_text title text @ 32 # TELL_INSTANCES ! i"
    using assms(1,2) by (intro combined_text_append) simp_all
  then show ?thesis
    by (simp add: tells_points_instance [OF i])
qed

theorem tells_points_append_instance_witness:
  "flag_text \<noteq> [] \<and> \<not> is_space (last flag_text) \<and>
   re_search True (SPACE_FAKE_TELLS ! 1) (combined_text flag_title flag_text) \<and>
   tells_points (combined_text flag_title (flag_text @ 32 # TELL_INSTANCES ! 1)) =
     tells_points (combined_text flag_title flag_text) \<and>
   \<not> re_search True (SPACE_FAKE_TELLS ! 3) (combined_text flag_title flag_text) \<and>
   tells_points (combined_text flag_title (flag_text @ 32 # TELL_INSTANCES ! 3)) =
     tells_points (combined_text flag_title flag_text) + 18"
proof -
  have a: "flag_text \<noteq> []" and b: "\<not> is_space (last flag_text)"
    by (simp_all add: flag_text_def is_space_def)
  have c: "re_search True (SPACE_FAKE_TELLS ! 1) (combined_text flag_title flag_text)"
    by code_simp
  have d: "\<not> re_search True (SPACE_FAKE_TELLS ! 3) (combined_text flag_title flag_text)"
    by code_simp
  have n: "1 < length SPACE_FAKE_TELLS" "3 < length SPACE_FAKE_TELLS"
    by (simp_all add: SPACE_FAKE_TELLS_def)
  from tells_points_append_instance [OF a b n(1), of flag_title]
       tells_points_append_instance [OF a b n(2), of flag_title] a b c d
  show ?thesis by simp
qed

text \<open>
  C4 as stated fails for the whole score: with the title \<open>NEWS\<close> the body
  \<open>a b c reptiloid\<close> scores 65; with a second \<open>reptiloid\<close> appended it scores 60, or 56
  when a space comes first, since the share of capital words and the average word length
  change; with the new flag \<open>zagovor\<close> appended it scores 79, which is 14 more, not 18.
\<close>

theorem red_flag_append_counterexample:
  "re_search True TELL_REPTILOID (combined_text flag_title flag_text) \<and>
   improved_fake_score flag_text flag_title = 65 \<and>
   improved_fake_score (flag_text @ TELL_INSTANCES ! 1) flag_title = 60 \<and>
   improved_fake_score (flag_text @ 32 # TELL_INSTANCES ! 1) flag_title = 56 \<and>
   \<not> re_search True TELL_CONSPIRACY (combined_text flag_title flag_text) \<and>
   improved_fake_score (flag_text @ 32 # TELL_INSTANCES ! 3) flag_title = 79"
  by code_simp

end
